theory Spec2Isabelle
  imports Complex_Main
begin

section \<open>The positive-impact scoring engine\<close>

text \<open>
  A shallow embedding of \<^verbatim>\<open>src/processors/positive_scorer.py\<close> (class
  \<^verbatim>\<open>PositiveScorer\<close>) and of the dataclass \<^verbatim>\<open>CyberGoodNews\<close> of
  \<^verbatim>\<open>src/models.py\<close>.

  Conventions of the embedding:
  \<^item> Python strings are \<open>string\<close>; \<^verbatim>\<open>str.lower\<close> is the ASCII lower-casing and
    \<^verbatim>\<open>len\<close> counts characters. The description of a story is a string or \<^verbatim>\<open>None\<close>:
    an f-string formats \<^verbatim>\<open>None\<close> as the text \<^verbatim>\<open>None\<close>, and \<^verbatim>\<open>len(None)\<close> raises.
  \<^item> Python floats are \<open>real\<close>; \<^verbatim>\<open>Config.MIN_IMPACT_SCORE\<close> is an \<open>int\<close> parameter.
  \<^item> The rule set is what \<^verbatim>\<open>yaml.safe_load\<close> returned: a dictionary whose keys may be
    absent (\<open>None\<close>), read everywhere through \<^verbatim>\<open>.get(key, default)\<close>. Dictionaries
    that are iterated are association lists in insertion order. An entry of a keyword list
    is any YAML scalar; \<^verbatim>\<open>kw.lower()\<close> raises on every scalar that is not a string.
    Base scores and modifier deltas are numbers.
  \<^item> Story objects are mutated in place, so a call works on a store of objects and a
    list of references into it. A function that can raise returns the state of the
    object at the moment it is left, with the exception if there was one.
\<close>

subsection \<open>Data model\<close>

type_synonym datetime = int

record CyberGoodNews =
  story_id :: "string option"
  title :: string
  description :: "string option"
  source :: string
  source_url :: string
  published_date :: datetime
  collected_date :: datetime
  category :: string
  impact_score :: real
  summary :: "string option"
  tags :: "string list option"
  is_processed :: bool
  is_sent :: bool

datatype error = AttributeError | TypeError | FileNotFoundError | YAMLError

datatype yaml_scalar = YStr string | YInt int | YBool bool | YNull

record signal_rule =
  sig_keywords :: "yaml_scalar list option"

record category_rule =
  cat_keywords :: "yaml_scalar list option"
  base_score :: "real option"

record modifier_rule =
  mod_keywords :: "yaml_scalar list option"
  modifier :: "real option"

record rules =
  positive_categories :: "(string \<times> category_rule) list option"
  positive_signals :: "signal_rule option"
  negative_indicators :: "signal_rule option"
  impact_modifiers :: "(string \<times> modifier_rule) list option"

subsection \<open>Strings\<close>

definition lower_char :: "char \<Rightarrow> char" where
  "lower_char c =
     (let n = (of_char c :: nat) in if 65 \<le> n \<and> n \<le> 90 then char_of (n + 32) else c)"

definition lower :: "string \<Rightarrow> string" where
  "lower s = map lower_char s"

fun starts_with :: "string \<Rightarrow> string \<Rightarrow> bool" where
  "starts_with s [] = True"
| "starts_with [] (k # ks) = False"
| "starts_with (c # cs) (k # ks) = (c = k \<and> starts_with cs ks)"

text \<open>\<^verbatim>\<open>kw in s\<close> on strings: \<open>kw\<close> occurs in \<open>s\<close> as a contiguous substring.\<close>

fun str_in :: "string \<Rightarrow> string \<Rightarrow> bool" where
  "str_in kw [] = (kw = [])"
| "str_in kw (c # cs) = (starts_with (c # cs) kw \<or> str_in kw cs)"

text \<open>The text that an f-string puts for a field holding a string or \<^verbatim>\<open>None\<close>.\<close>

definition format_field :: "string option \<Rightarrow> string" where
  "format_field v = (case v of None \<Rightarrow> ''None'' | Some x \<Rightarrow> x)"

text \<open>\<^verbatim>\<open>kw.lower()\<close> on an entry of a keyword list.\<close>

fun kw_lower :: "yaml_scalar \<Rightarrow> error + string" where
  "kw_lower (YStr k) = Inr (lower k)"
| "kw_lower (YInt i) = Inl AttributeError"
| "kw_lower (YBool b) = Inl AttributeError"
| "kw_lower YNull = Inl AttributeError"

subsection \<open>Rule set\<close>

definition get_default_rules :: rules where
  "get_default_rules =
     \<lparr>positive_categories = Some
        [(''Security Wins'',
          \<lparr>cat_keywords = Some [YStr ''arrested'', YStr ''takedown'', YStr ''dismantled'',
                                 YStr ''seized''],
           base_score = Some 7.0\<rparr>),
         (''Innovation & Research'',
          \<lparr>cat_keywords = Some [YStr ''new tool'', YStr ''open source'', YStr ''research''],
           base_score = Some 6.0\<rparr>)],
      positive_signals = None,
      negative_indicators = None,
      impact_modifiers = None\<rparr>"

text \<open>
  \<^verbatim>\<open>_load_scoring_rules\<close>: the argument is the outcome of opening the file and of
  \<^verbatim>\<open>yaml.safe_load\<close>, an exception or the loaded document.
\<close>

definition load_scoring_rules :: "error + rules \<Rightarrow> rules" where
  "load_scoring_rules loaded =
     (case loaded of Inr r \<Rightarrow> r | Inl e \<Rightarrow> get_default_rules)"

text \<open>\<^verbatim>\<open>self.rules.get(section, {}).get('keywords', [])\<close>\<close>

definition signal_keywords :: "signal_rule option \<Rightarrow> yaml_scalar list" where
  "signal_keywords sec =
     (case sec of None \<Rightarrow> []
      | Some d \<Rightarrow> (case sig_keywords d of None \<Rightarrow> [] | Some ks \<Rightarrow> ks))"

text \<open>\<^verbatim>\<open>self.rules.get(section, {}).items()\<close>\<close>

definition dict_items :: "('k \<times> 'v) list option \<Rightarrow> ('k \<times> 'v) list" where
  "dict_items sec = (case sec of None \<Rightarrow> [] | Some d \<Rightarrow> d)"

definition category_keywords :: "category_rule \<Rightarrow> yaml_scalar list" where
  "category_keywords cat_data = (case cat_keywords cat_data of None \<Rightarrow> [] | Some ks \<Rightarrow> ks)"

definition modifier_keywords :: "modifier_rule \<Rightarrow> yaml_scalar list" where
  "modifier_keywords mod_data = (case mod_keywords mod_data of None \<Rightarrow> [] | Some ks \<Rightarrow> ks)"

subsection \<open>Signal counter\<close>

text \<open>\<^verbatim>\<open>sum(1 for kw in keywords if kw.lower() in s)\<close>\<close>

fun count_matches :: "yaml_scalar list \<Rightarrow> string \<Rightarrow> error + nat" where
  "count_matches [] s = Inr 0"
| "count_matches (kw # kws) s =
     (case kw_lower kw of
        Inl e \<Rightarrow> Inl e
      | Inr k \<Rightarrow>
          (case count_matches kws s of
             Inl e \<Rightarrow> Inl e
           | Inr n \<Rightarrow> Inr (if str_in k s then Suc n else n)))"

text \<open>\<^verbatim>\<open>any(kw.lower() in s for kw in keywords)\<close>, which stops at the first match.\<close>

fun any_match :: "yaml_scalar list \<Rightarrow> string \<Rightarrow> error + bool" where
  "any_match [] s = Inr False"
| "any_match (kw # kws) s =
     (case kw_lower kw of
        Inl e \<Rightarrow> Inl e
      | Inr k \<Rightarrow> if str_in k s then Inr True else any_match kws s)"

subsection \<open>Categorisation\<close>

text \<open>
  The loop of \<^verbatim>\<open>_categorize\<close> over \<^verbatim>\<open>categories.items()\<close>, on the triple
  \<^verbatim>\<open>(best_match, best_score, best_base)\<close>.
\<close>

fun categorize_loop ::
  "(string \<times> category_rule) list \<Rightarrow> string \<Rightarrow> string option \<times> nat \<times> real \<Rightarrow>
   error + (string option \<times> nat \<times> real)" where
  "categorize_loop [] s best = Inr best"
| "categorize_loop ((cat_name, cat_data) # cats) s (best_match, best_score, best_base) =
     (case count_matches (category_keywords cat_data) s of
        Inl e \<Rightarrow> Inl e
      | Inr matches \<Rightarrow>
          if matches > best_score
          then categorize_loop cats s
                 (Some cat_name, matches,
                  (case base_score cat_data of None \<Rightarrow> 5.0 | Some b \<Rightarrow> b))
          else categorize_loop cats s (best_match, best_score, best_base))"

definition categorize :: "rules \<Rightarrow> string \<Rightarrow> error + (string \<times> real)" where
  "categorize rs s =
     (case categorize_loop (dict_items (positive_categories rs)) s (None, 0, 3.0) of
        Inl e \<Rightarrow> Inl e
      | Inr (best_match, best_score, best_base) \<Rightarrow>
          (case best_match of
             None \<Rightarrow> Inr (''Other'', 3.0)
           | Some c \<Rightarrow> Inr (c, best_base)))"

subsection \<open>Score calculator\<close>

fun calculate_impact_loop ::
  "(string \<times> modifier_rule) list \<Rightarrow> string \<Rightarrow> real \<Rightarrow> error + real" where
  "calculate_impact_loop [] s score = Inr score"
| "calculate_impact_loop ((mod_name, mod_data) # mods) s score =
     (case any_match (modifier_keywords mod_data) s of
        Inl e \<Rightarrow> Inl e
      | Inr hit \<Rightarrow>
          calculate_impact_loop mods s
            (if hit then score + (case modifier mod_data of None \<Rightarrow> 0.0 | Some d \<Rightarrow> d)
             else score))"

definition calculate_impact :: "rules \<Rightarrow> string \<Rightarrow> real \<Rightarrow> error + real" where
  "calculate_impact rs s base = calculate_impact_loop (dict_items (impact_modifiers rs)) s base"

subsection \<open>Tags and summary\<close>

text \<open>
  The Python set of tags is kept as a list without duplicates, in insertion order.
  \<^verbatim>\<open>list(tags)\<close> enumerates the set in an order Python does not specify; the model
  takes the insertion order.
\<close>

definition set_add :: "string \<Rightarrow> string list \<Rightarrow> string list" where
  "set_add x xs = (if x \<in> set xs then xs else xs @ [x])"

text \<open>
  The inner loop of \<^verbatim>\<open>_extract_tags\<close> over one category's keywords. The flag of the
  result says that the function returned from inside the loop.
\<close>

fun extract_tags_keywords ::
  "yaml_scalar list \<Rightarrow> string \<Rightarrow> string list \<Rightarrow> error + (string list \<times> bool)" where
  "extract_tags_keywords [] s tgs = Inr (tgs, False)"
| "extract_tags_keywords (kw # kws) s tgs =
     (case kw_lower kw of
        Inl e \<Rightarrow> Inl e
      | Inr k \<Rightarrow>
          if str_in k s
          then (let tgs' = (case kw of YStr raw \<Rightarrow> set_add raw tgs | _ \<Rightarrow> tgs)
                in if length tgs' \<ge> 8 then Inr (take 8 tgs', True)
                   else extract_tags_keywords kws s tgs')
          else extract_tags_keywords kws s tgs)"

fun extract_tags_loop ::
  "(string \<times> category_rule) list \<Rightarrow> string \<Rightarrow> string list \<Rightarrow> error + string list" where
  "extract_tags_loop [] s tgs = Inr (take 8 tgs)"
| "extract_tags_loop ((cat_name, cat_data) # cats) s tgs =
     (case extract_tags_keywords (category_keywords cat_data) s tgs of
        Inl e \<Rightarrow> Inl e
      | Inr (tgs', returned) \<Rightarrow>
          if returned then Inr tgs' else extract_tags_loop cats s tgs')"

definition extract_tags :: "rules \<Rightarrow> string \<Rightarrow> error + string list" where
  "extract_tags rs s =
     extract_tags_loop (dict_items (positive_categories rs)) s
       [''cyber-good-news'', ''security-positive'']"

definition get_impact_label :: "real \<Rightarrow> string" where
  "get_impact_label score =
     (if score \<ge> 8.0 then ''Outstanding''
      else if score \<ge> 6.0 then ''High''
      else if score \<ge> 4.0 then ''Moderate''
      else ''Notable'')"

text \<open>
  \<^verbatim>\<open>_generate_summary\<close>. \<^verbatim>\<open>len(story.description)\<close> raises when the description is
  \<^verbatim>\<open>None\<close>.
\<close>

definition generate_summary :: "CyberGoodNews \<Rightarrow> error + string" where
  "generate_summary story =
     (case description story of
        None \<Rightarrow> Inl TypeError
      | Some d \<Rightarrow>
          if length d \<le> 200 then Inr d
          else
            (let label = get_impact_label (impact_score story);
                 summary0 = label @ '' impact story in '' @ [CHR 0x27] @ category story
                            @ [CHR 0x27] @ ''. '';
                 summary1 = summary0 @ ''Source: '' @ source story @ ''. ''
             in if d \<noteq> []
                then Inr (summary1 @ take 150 (takeWhile (\<lambda>c. c \<noteq> CHR ''.'') d) @ ''.'')
                else Inr summary1))"

subsection \<open>Classifier\<close>

text \<open>
  \<^verbatim>\<open>_analyze_story\<close>. The result is the story object as the call leaves it, and the
  exception when the call raised.
\<close>

definition analyze_story :: "rules \<Rightarrow> CyberGoodNews \<Rightarrow> CyberGoodNews \<times> error option" where
  "analyze_story rs story =
     (let fulltext = lower (title story @ '' '' @ format_field (description story));
          title_text = lower (title story);
          pos_kws = signal_keywords (positive_signals rs);
          neg_kws = signal_keywords (negative_indicators rs)
      in
      (case count_matches pos_kws title_text of Inl e \<Rightarrow> (story, Some e) | Inr title_pos \<Rightarrow>
      (case count_matches pos_kws fulltext of Inl e \<Rightarrow> (story, Some e) | Inr body_pos \<Rightarrow>
      (case count_matches neg_kws title_text of Inl e \<Rightarrow> (story, Some e) | Inr title_neg \<Rightarrow>
      (case count_matches neg_kws fulltext of Inl e \<Rightarrow> (story, Some e) | Inr neg_count \<Rightarrow>
         if title_pos = 0
         then (story\<lparr>impact_score := 0.0, category := ''Neutral''\<rparr>, None)
         else if title_neg > title_pos
         then (story\<lparr>impact_score := 0.0, category := ''Negative''\<rparr>, None)
         else
           (case categorize rs fulltext of Inl e \<Rightarrow> (story, Some e) | Inr (cat, base) \<Rightarrow>
           (let story1 = story\<lparr>category := cat\<rparr> in
           (case calculate_impact rs fulltext base of Inl e \<Rightarrow> (story1, Some e) | Inr score \<Rightarrow>
           (let story2 = story1\<lparr>impact_score := score\<rparr>;
                story3 = (if neg_count > 0
                          then story2\<lparr>impact_score :=
                                         impact_score story2 - real neg_count * 0.5\<rparr>
                          else story2);
                story4 = story3\<lparr>impact_score := min 10.0 (max 0.0 (impact_score story3))\<rparr>
            in
            (case extract_tags rs fulltext of Inl e \<Rightarrow> (story4, Some e) | Inr tgs \<Rightarrow>
            (let story5 = story4\<lparr>tags := Some tgs\<rparr>
             in
             (case generate_summary story5 of Inl e \<Rightarrow> (story5, Some e) | Inr sm \<Rightarrow>
                (story5\<lparr>summary := Some sm\<rparr>, None)))))))))))))"

subsection \<open>Pipeline entry point\<close>

text \<open>
  One iteration of the loop of \<^verbatim>\<open>process_stories\<close> on the object \<open>story\<close>: the object
  after the iteration, and whether the iteration appended it to \<^verbatim>\<open>processed\<close>. An
  exception raised by the classifier is caught by the \<^verbatim>\<open>except\<close> clause, which skips the
  rest of the \<^verbatim>\<open>try\<close> body.
\<close>

definition process_story :: "rules \<Rightarrow> int \<Rightarrow> CyberGoodNews \<Rightarrow> CyberGoodNews \<times> bool" where
  "process_story rs MIN_IMPACT_SCORE story =
     (if \<not> is_processed story
      then (case analyze_story rs story of
              (story', Some e) \<Rightarrow> (story', False)
            | (story', None) \<Rightarrow>
                (let story'' = story'\<lparr>is_processed := True\<rparr>
                 in (story'', impact_score story'' \<ge> of_int MIN_IMPACT_SCORE)))
      else (story, impact_score story \<ge> of_int MIN_IMPACT_SCORE))"

type_synonym ref = nat
type_synonym store = "ref \<Rightarrow> CyberGoodNews"

fun process_loop ::
  "rules \<Rightarrow> int \<Rightarrow> ref list \<Rightarrow> store \<times> ref list \<Rightarrow> store \<times> ref list" where
  "process_loop rs m [] (h, processed) = (h, processed)"
| "process_loop rs m (r # stories) (h, processed) =
     (case process_story rs m (h r) of
        (story', keep) \<Rightarrow>
          process_loop rs m stories
            (h(r := story'), if keep then processed @ [r] else processed))"

text \<open>
  \<^verbatim>\<open>process_stories\<close>: the store after the call and the returned list of references.
\<close>

definition process_stories :: "rules \<Rightarrow> int \<Rightarrow> store \<Rightarrow> ref list \<Rightarrow> store \<times> ref list" where
  "process_stories rs m h stories = process_loop rs m stories (h, [])"

section \<open>Vocabulary of the properties\<close>

abbreviation full_text :: "CyberGoodNews \<Rightarrow> string" where
  "full_text story \<equiv> lower (title story @ '' '' @ format_field (description story))"

abbreviation pos_keywords :: "rules \<Rightarrow> yaml_scalar list" where
  "pos_keywords rs \<equiv> signal_keywords (positive_signals rs)"

abbreviation neg_keywords :: "rules \<Rightarrow> yaml_scalar list" where
  "neg_keywords rs \<equiv> signal_keywords (negative_indicators rs)"

abbreviation base_or_default :: "category_rule \<Rightarrow> real" where
  "base_or_default cat_data \<equiv> (case base_score cat_data of None \<Rightarrow> 5.0 | Some b \<Rightarrow> b)"

text \<open>The keywords of the list \<open>ks\<close> that occur in \<open>s\<close>, each listed keyword once.\<close>

abbreviation matching :: "string list \<Rightarrow> string \<Rightarrow> string list" where
  "matching ks s \<equiv> filter (\<lambda>k. str_in (lower k) s) ks"

text \<open>
  A rule set is well typed when every entry of every keyword list is a string, which is
  what the lexicon's interface declares. On such a rule set no call raises on a story
  whose description is a string.
\<close>

fun is_str :: "yaml_scalar \<Rightarrow> bool" where
  "is_str (YStr k) = True"
| "is_str (YInt i) = False"
| "is_str (YBool b) = False"
| "is_str YNull = False"

definition typed_categories :: "rules \<Rightarrow> bool" where
  "typed_categories rs \<longleftrightarrow>
     list_all (\<lambda>(cat_name, cat_data). list_all is_str (category_keywords cat_data))
       (dict_items (positive_categories rs))"


text \<open>The fields of a story that the scoring engine only reads.\<close>

definition frame_fields ::
  "CyberGoodNews \<Rightarrow>
   string option \<times> string \<times> string option \<times> string \<times> string \<times> datetime \<times> datetime \<times>
   bool" where
  "frame_fields story =
     (story_id story, title story, description story, source story, source_url story,
      published_date story, collected_date story, is_sent story)"



subsection \<open>Sample inputs\<close>

definition demo_rules :: rules where
  "demo_rules =
     \<lparr>positive_categories = Some
        [(''Security Wins'',
          \<lparr>cat_keywords = Some [YStr ''arrested'', YStr ''takedown''], base_score = Some 7.0\<rparr>),
         (''Innovation & Research'',
          \<lparr>cat_keywords = Some [YStr ''open source'', YStr ''research''],
           base_score = Some 6.0\<rparr>)],
      positive_signals = Some \<lparr>sig_keywords = Some [YStr ''arrested'', YStr ''open source'']\<rparr>,
      negative_indicators = Some \<lparr>sig_keywords = Some [YStr ''breach'', YStr ''ransomware'']\<rparr>,
      impact_modifiers = Some
        [(''scale'', \<lparr>mod_keywords = Some [YStr ''international''], modifier = Some 1.0\<rparr>)]\<rparr>"

text \<open>A lexicon whose modifier keyword \<^verbatim>\<open>2024\<close> was loaded as a number.\<close>

definition broken_rules :: rules where
  "broken_rules =
     demo_rules\<lparr>impact_modifiers := Some
        [(''year'', \<lparr>mod_keywords = Some [YInt 2024], modifier = Some 1.0\<rparr>)]\<rparr>"

definition demo_story :: CyberGoodNews where
  "demo_story =
     \<lparr>story_id = Some ''a1'', title = ''Hackers Arrested'',
      description = Some ''Breach after breach'', source = ''Feed'', source_url = ''http://x/1'',
      published_date = 1, collected_date = 2, category = ''Uncategorized'',
      impact_score = 0.0, summary = None, tags = None, is_processed = False,
      is_sent = False\<rparr>"

definition breach_story :: CyberGoodNews where
  "breach_story =
     demo_story\<lparr>title := ''Massive data breach exposes millions'',
                 description := Some ''hackers stole records''\<rparr>"

definition mixed_story :: CyberGoodNews where
  "mixed_story =
     demo_story\<lparr>title := ''Ransomware breach suspects arrested'', description := Some ''''\<rparr>"

text \<open>A story whose description is \<^verbatim>\<open>None\<close>.\<close>

definition null_story :: CyberGoodNews where
  "null_story = demo_story\<lparr>description := None\<rparr>"

definition old_story :: CyberGoodNews where
  "old_story =
     \<lparr>story_id = Some ''b2'', title = ''Old news'', description = Some ''Nothing'',
      source = ''Feed'', source_url = ''http://x/2'', published_date = 1,
      collected_date = 2, category = ''Security Wins'', impact_score = 7.0,
      summary = Some ''Nothing'', tags = Some [], is_processed = True, is_sent = False\<rparr>"

definition demo_store :: store where
  "demo_store r = (if r = 0 then demo_story else old_story)"

definition null_store :: store where
  "null_store r = (if r = 0 then null_story else old_story)"

section \<open>Auxiliary facts\<close>

lemma count_matches_strs:
  "count_matches (map YStr ks) s = Inr (length (filter (\<lambda>k. str_in (lower k) s) ks))"
  by (induction ks) auto

lemma is_str_YStr: "is_str kw \<Longrightarrow> \<exists>k. kw = YStr k"
  by (cases kw) auto

lemma strs_of_list_all: "list_all is_str kws \<Longrightarrow> \<exists>ks. kws = map YStr ks"
proof (induction kws)
  case Nil
  then show ?case by simp
next
  case (Cons kw kws)
  then obtain ks where "kws = map YStr ks" by auto
  moreover from Cons.prems obtain k where "kw = YStr k" using is_str_YStr by auto
  ultimately have "kw # kws = map YStr (k # ks)" by simp
  then show ?case by (rule exI)
qed

lemma list_all_strs: "list_all is_str (map YStr ks)"
  by (induction ks) auto

lemma count_matches_total: "list_all is_str kws \<Longrightarrow> \<exists>n. count_matches kws s = Inr n"
  using strs_of_list_all count_matches_strs by metis

lemma count_matches_all_str: "count_matches kws s = Inr n \<Longrightarrow> list_all is_str kws"
proof (induction kws arbitrary: n)
  case Nil
  then show ?case by simp
next
  case (Cons kw kws)
  then show ?case by (cases kw) (auto split: sum.splits)
qed


lemma tags_keywords_total:
  "list_all is_str kws \<Longrightarrow> \<exists>r. extract_tags_keywords kws s tgs = Inr r"
proof (induction kws arbitrary: tgs)
  case Nil
  then show ?case by auto
next
  case (Cons kw kws)
  then show ?case by (cases kw) (auto simp: Let_def)
qed

lemma analyze_story_frame:
  assumes "analyze_story rs s = (s', x)"
  shows "story_id s' = story_id s \<and> title s' = title s \<and> description s' = description s
       \<and> source s' = source s \<and> source_url s' = source_url s
       \<and> published_date s' = published_date s \<and> collected_date s' = collected_date s
       \<and> is_processed s' = is_processed s \<and> is_sent s' = is_sent s"
  using assms
  by (auto simp: analyze_story_def Let_def split: sum.splits if_splits prod.splits)

lemma count_ok_tags_ok:
  "count_matches kws s = Inr n \<Longrightarrow> \<exists>r. extract_tags_keywords kws s tgs = Inr r"
  using count_matches_all_str tags_keywords_total by blast

lemma categorize_ok_tags_ok:
  "categorize_loop cats s best = Inr b \<Longrightarrow> \<exists>t. extract_tags_loop cats s tgs = Inr t"
proof (induction cats arbitrary: best tgs)
  case Nil
  then show ?case by auto
next
  case (Cons cat cats)
  obtain cat_name cat_data where cat: "cat = (cat_name, cat_data)" by (cases cat)
  obtain bm bs bb where best: "best = (bm, bs, bb)" by (cases best)
  from Cons.prems obtain n where n: "count_matches (category_keywords cat_data) s = Inr n"
    by (auto simp: cat best split: sum.splits)
  then obtain tgs' returned
    where r: "extract_tags_keywords (category_keywords cat_data) s tgs = Inr (tgs', returned)"
    using count_ok_tags_ok by fastforce
  from Cons.prems n obtain best' where "categorize_loop cats s best' = Inr b"
    by (auto simp: cat best split: if_splits)
  then obtain t where "extract_tags_loop cats s tgs' = Inr t"
    using Cons.IH by blast
  with r show ?case by (auto simp: cat)
qed

lemma categorize_ok_extract_ok:
  assumes "categorize rs s = Inr cb"
  shows "\<exists>t. extract_tags rs s = Inr t"
proof -
  from assms obtain b where
    "categorize_loop (dict_items (positive_categories rs)) s (None, 0, 3.0) = Inr b"
    by (auto simp: categorize_def split: sum.splits)
  then show ?thesis
    unfolding extract_tags_def by (rule categorize_ok_tags_ok)
qed

lemma analyze_story_cases:
  obtains
    (raised) e where
      "analyze_story rs s = (s, Some e)"
      "count_matches (pos_keywords rs) (lower (title s)) = Inl e
       \<or> count_matches (pos_keywords rs) (full_text s) = Inl e
       \<or> count_matches (neg_keywords rs) (lower (title s)) = Inl e
       \<or> count_matches (neg_keywords rs) (full_text s) = Inl e
       \<or> categorize rs (full_text s) = Inl e"
  | (gate1) body_pos title_neg neg_count where
      "count_matches (pos_keywords rs) (lower (title s)) = Inr 0"
      "count_matches (pos_keywords rs) (full_text s) = Inr body_pos"
      "count_matches (neg_keywords rs) (lower (title s)) = Inr title_neg"
      "count_matches (neg_keywords rs) (full_text s) = Inr neg_count"
      "analyze_story rs s = (s\<lparr>impact_score := 0, category := ''Neutral''\<rparr>, None)"
  | (gate2) title_pos body_pos title_neg neg_count where
      "count_matches (pos_keywords rs) (lower (title s)) = Inr title_pos"
      "count_matches (pos_keywords rs) (full_text s) = Inr body_pos"
      "count_matches (neg_keywords rs) (lower (title s)) = Inr title_neg"
      "count_matches (neg_keywords rs) (full_text s) = Inr neg_count"
      "title_pos \<noteq> 0" "title_neg > title_pos"
      "analyze_story rs s = (s\<lparr>impact_score := 0, category := ''Negative''\<rparr>, None)"
  | (raised_scoring) title_pos body_pos title_neg neg_count cat base e where
      "count_matches (pos_keywords rs) (lower (title s)) = Inr title_pos"
      "count_matches (pos_keywords rs) (full_text s) = Inr body_pos"
      "count_matches (neg_keywords rs) (lower (title s)) = Inr title_neg"
      "count_matches (neg_keywords rs) (full_text s) = Inr neg_count"
      "title_pos \<noteq> 0" "title_neg \<le> title_pos"
      "categorize rs (full_text s) = Inr (cat, base)"
      "calculate_impact rs (full_text s) base = Inl e"
      "analyze_story rs s = (s\<lparr>category := cat\<rparr>, Some e)"
  | (scored) title_pos body_pos title_neg neg_count cat base score tgs sm where
      "count_matches (pos_keywords rs) (lower (title s)) = Inr title_pos"
      "count_matches (pos_keywords rs) (full_text s) = Inr body_pos"
      "count_matches (neg_keywords rs) (lower (title s)) = Inr title_neg"
      "count_matches (neg_keywords rs) (full_text s) = Inr neg_count"
      "title_pos \<noteq> 0" "title_neg \<le> title_pos"
      "categorize rs (full_text s) = Inr (cat, base)"
      "calculate_impact rs (full_text s) base = Inr score"
      "extract_tags rs (full_text s) = Inr tgs"
      "generate_summary
         (s\<lparr>category := cat,
            impact_score := min 10 (max 0 (score - real neg_count * 0.5)),
            tags := Some tgs\<rparr>) = Inr sm"
      "analyze_story rs s =
         (s\<lparr>category := cat,
            impact_score := min 10 (max 0 (score - real neg_count * 0.5)),
            tags := Some tgs,
            summary := Some sm\<rparr>, None)"
  | (raised_summary) title_pos body_pos title_neg neg_count cat base score tgs e where
      "count_matches (pos_keywords rs) (lower (title s)) = Inr title_pos"
      "count_matches (pos_keywords rs) (full_text s) = Inr body_pos"
      "count_matches (neg_keywords rs) (lower (title s)) = Inr title_neg"
      "count_matches (neg_keywords rs) (full_text s) = Inr neg_count"
      "title_pos \<noteq> 0" "title_neg \<le> title_pos"
      "categorize rs (full_text s) = Inr (cat, base)"
      "calculate_impact rs (full_text s) base = Inr score"
      "extract_tags rs (full_text s) = Inr tgs"
      "generate_summary
         (s\<lparr>category := cat,
            impact_score := min 10 (max 0 (score - real neg_count * 0.5)),
            tags := Some tgs\<rparr>) = Inl e"
      "analyze_story rs s =
         (s\<lparr>category := cat,
            impact_score := min 10 (max 0 (score - real neg_count * 0.5)),
            tags := Some tgs\<rparr>, Some e)"
proof (cases "count_matches (pos_keywords rs) (lower (title s))")
  case (Inl e)
  then have "analyze_story rs s = (s, Some e)" by (simp add: analyze_story_def)
  with Inl show ?thesis using raised by blast
next
  case tp: (Inr title_pos)
  show ?thesis
  proof (cases "count_matches (pos_keywords rs) (full_text s)")
    case (Inl e)
    with tp have "analyze_story rs s = (s, Some e)" by (simp add: analyze_story_def)
    with Inl show ?thesis using raised by blast
  next
    case bp: (Inr body_pos)
    show ?thesis
    proof (cases "count_matches (neg_keywords rs) (lower (title s))")
      case (Inl e)
      with tp bp have "analyze_story rs s = (s, Some e)" by (simp add: analyze_story_def)
      with Inl show ?thesis using raised by blast
    next
      case tn: (Inr title_neg)
      show ?thesis
      proof (cases "count_matches (neg_keywords rs) (full_text s)")
        case (Inl e)
        with tp bp tn have "analyze_story rs s = (s, Some e)" by (simp add: analyze_story_def)
        with Inl show ?thesis using raised by blast
      next
        case nc: (Inr neg_count)
        consider (g1) "title_pos = 0" | (g2) "title_pos \<noteq> 0" "title_neg > title_pos"
          | (past) "title_pos \<noteq> 0" "title_neg \<le> title_pos"
          by linarith
        then show ?thesis
        proof cases
          case g1
          with tp bp tn nc
          have "analyze_story rs s = (s\<lparr>impact_score := 0, category := ''Neutral''\<rparr>, None)"
            by (simp add: analyze_story_def)
          with tp bp tn nc g1 show ?thesis using gate1 by blast
        next
          case g2
          with tp bp tn nc
          have "analyze_story rs s = (s\<lparr>impact_score := 0, category := ''Negative''\<rparr>, None)"
            by (simp add: analyze_story_def)
          with tp bp tn nc g2 show ?thesis using gate2 by blast
        next
          case past
          show ?thesis
          proof (cases "categorize rs (full_text s)")
            case (Inl e)
            with tp bp tn nc past have "analyze_story rs s = (s, Some e)"
              by (simp add: analyze_story_def)
            with Inl show ?thesis using raised by blast
          next
            case (Inr cb)
            then obtain cat base where cb: "categorize rs (full_text s) = Inr (cat, base)"
              by (cases cb) simp
            then obtain tgs where tg: "extract_tags rs (full_text s) = Inr tgs"
              using categorize_ok_extract_ok by blast
            show ?thesis
            proof (cases "calculate_impact rs (full_text s) base")
              case (Inl e)
              with tp bp tn nc past cb
              have "analyze_story rs s = (s\<lparr>category := cat\<rparr>, Some e)"
                by (simp add: analyze_story_def)
              with tp bp tn nc past cb Inl show ?thesis using raised_scoring by blast
            next
              case sc: (Inr score)
              let ?s5 = "s\<lparr>category := cat,
                           impact_score := min 10 (max 0 (score - real neg_count * 0.5)),
                           tags := Some tgs\<rparr>"
              show ?thesis
              proof (cases "generate_summary ?s5")
                case (Inl e)
                with tp bp tn nc past cb tg sc
                have "analyze_story rs s = (?s5, Some e)"
                  by (cases "neg_count = 0") (simp_all add: analyze_story_def Let_def)
                with tp bp tn nc past cb sc tg Inl show ?thesis using raised_summary by blast
              next
                case (Inr sm)
                with tp bp tn nc past cb tg sc
                have "analyze_story rs s = (?s5\<lparr>summary := Some sm\<rparr>, None)"
                  by (cases "neg_count = 0") (simp_all add: analyze_story_def Let_def)
                with tp bp tn nc past cb sc tg Inr show ?thesis using scored by blast
              qed
            qed
          qed
        qed
      qed
    qed
  qed
qed

lemma analyze_story_raise_shape:
  assumes "analyze_story rs s = (s', Some e)"
  shows "s' = s\<lparr>category := category s', impact_score := impact_score s', tags := tags s'\<rparr>"
  using assms by (cases rs s rule: analyze_story_cases) auto

lemma analyze_story_rerun:
  assumes "analyze_story rs s = (s', Some e)"
  shows "analyze_story rs s' = (s', Some e)"
proof (cases rs s rule: analyze_story_cases)
  case (raised e)
  with assms show ?thesis by simp
next
  case (gate1 body_pos title_neg neg_count)
  with assms show ?thesis by simp
next
  case (gate2 title_pos body_pos title_neg neg_count)
  with assms show ?thesis by simp
next
  case (raised_scoring title_pos body_pos title_neg neg_count cat base e')
  with assms have s': "s' = s\<lparr>category := cat\<rparr>" and e: "e' = e" by simp_all
  from raised_scoring(1-8) show ?thesis
    unfolding s' e by (simp add: analyze_story_def Let_def)
next
  case (scored title_pos body_pos title_neg neg_count cat base score tgs sm)
  with assms show ?thesis by simp
next
  case (raised_summary title_pos body_pos title_neg neg_count cat base score tgs e')
  with assms have s': "s' = s\<lparr>category := cat,
      impact_score := min 10 (max 0 (score - real neg_count * 0.5)), tags := Some tgs\<rparr>"
    and e: "e' = e" by simp_all
  from raised_summary(1-10) show ?thesis
    unfolding s' e by (cases "neg_count = 0") (simp_all add: analyze_story_def Let_def)
qed

lemma process_story_idem:
  "process_story rs m (fst (process_story rs m s)) = process_story rs m s"
proof (cases "is_processed s")
  case True
  then show ?thesis by (simp add: process_story_def)
next
  case False
  obtain s' x where a: "analyze_story rs s = (s', x)" by (cases "analyze_story rs s")
  show ?thesis
  proof (cases x)
    case None
    with a False show ?thesis by (simp add: process_story_def Let_def)
  next
    case (Some e)
    with a have "analyze_story rs s' = (s', Some e)" by (simp add: analyze_story_rerun)
    moreover from a have "is_processed s' = is_processed s" by (simp add: analyze_story_frame)
    ultimately show ?thesis using a False Some by (simp add: process_story_def)
  qed
qed

lemma process_loop_store:
  assumes "\<And>q. q \<in> set done \<Longrightarrow> h q = fst (process_story rs m (h0 q))"
      and "\<And>q. q \<notin> set done \<Longrightarrow> h q = h0 q"
  shows "fst (process_loop rs m stories (h, acc)) q =
           (if q \<in> set done \<union> set stories then fst (process_story rs m (h0 q)) else h0 q)"
  using assms
proof (induction stories arbitrary: h acc "done")
  case Nil
  then show ?case by simp
next
  case (Cons r stories)
  obtain story' keep where ps: "process_story rs m (h r) = (story', keep)"
    by (cases "process_story rs m (h r)")
  have hr: "fst (process_story rs m (h r)) = fst (process_story rs m (h0 r))"
  proof (cases "r \<in> set done")
    case True
    then show ?thesis using Cons.prems(1) by (simp add: process_story_idem)
  next
    case False
    then show ?thesis using Cons.prems(2) by simp
  qed
  let ?h = "h(r := story')"
  have 1: "?h q = fst (process_story rs m (h0 q))" if "q \<in> set (r # done)" for q
    using that hr ps Cons.prems(1) by auto
  have 2: "?h q = h0 q" if "q \<notin> set (r # done)" for q
    using that Cons.prems(2) by auto
  have "fst (process_loop rs m stories (?h, if keep then acc @ [r] else acc)) q =
          (if q \<in> set (r # done) \<union> set stories then fst (process_story rs m (h0 q)) else h0 q)"
    using 1 2 by (rule Cons.IH)
  then show ?case using ps by simp
qed

lemma process_loop_output:
  assumes "\<And>q. q \<in> set done \<Longrightarrow> h q = fst (process_story rs m (h0 q))"
      and "\<And>q. q \<notin> set done \<Longrightarrow> h q = h0 q"
  shows "snd (process_loop rs m stories (h, acc)) =
           acc @ filter (\<lambda>q. snd (process_story rs m (h0 q))) stories"
  using assms
proof (induction stories arbitrary: h acc "done")
  case Nil
  then show ?case by simp
next
  case (Cons r stories)
  have hr: "process_story rs m (h r) = process_story rs m (h0 r)"
  proof (cases "r \<in> set done")
    case True
    then show ?thesis using Cons.prems(1) by (simp add: process_story_idem)
  next
    case False
    then show ?thesis using Cons.prems(2) by simp
  qed
  obtain story' keep where ps0: "process_story rs m (h0 r) = (story', keep)"
    by (cases "process_story rs m (h0 r)")
  with hr have ps: "process_story rs m (h r) = (story', keep)" by simp
  let ?h = "h(r := story')"
  have 1: "?h q = fst (process_story rs m (h0 q))" if "q \<in> set (r # done)" for q
    using that ps0 Cons.prems(1) by auto
  have 2: "?h q = h0 q" if "q \<notin> set (r # done)" for q
    using that Cons.prems(2) by auto
  have "snd (process_loop rs m stories (?h, if keep then acc @ [r] else acc)) =
          (if keep then acc @ [r] else acc) @ filter (\<lambda>q. snd (process_story rs m (h0 q))) stories"
    using 1 2 by (rule Cons.IH)
  then show ?case using ps ps0 by auto
qed

lemma process_stories_store:
  "fst (process_stories rs m h stories) q =
     (if q \<in> set stories then fst (process_story rs m (h q)) else h q)"
  unfolding process_stories_def
  using process_loop_store [of "[]" h rs m h stories "[]" q] by simp

lemma process_stories_output:
  "snd (process_stories rs m h stories) = filter (\<lambda>q. snd (process_story rs m (h q))) stories"
  unfolding process_stories_def
  using process_loop_output [of "[]" h rs m h stories "[]"] by simp

lemma categorize_loop_total:
  "list_all (\<lambda>(cat_name, cat_data). list_all is_str (category_keywords cat_data)) cats
   \<Longrightarrow> \<exists>b. categorize_loop cats s best = Inr b"
proof (induction cats arbitrary: best)
  case Nil
  show ?case by (rule exI [of _ best]) simp
next
  case (Cons cat cats)
  obtain cat_name cat_data where cat: "cat = (cat_name, cat_data)" by (cases cat)
  obtain bm bs bb where best: "best = (bm, bs, bb)" by (cases best)
  from Cons.prems obtain n where "count_matches (category_keywords cat_data) s = Inr n"
    using count_matches_total by (auto simp: cat)
  moreover from Cons have "\<exists>b. categorize_loop cats s best' = Inr b" for best'
    by simp
  ultimately show ?case by (simp add: cat best)
qed

lemma categorize_total: "typed_categories rs \<Longrightarrow> \<exists>c b. categorize rs s = Inr (c, b)"
proof -
  assume "typed_categories rs"
  then obtain b where
    "categorize_loop (dict_items (positive_categories rs)) s (None, 0, 3.0) = Inr b"
    unfolding typed_categories_def using categorize_loop_total by blast
  then show ?thesis
    by (cases b) (auto simp: categorize_def split: option.splits)
qed


lemma generate_summary_total:
  "description story = Some d \<Longrightarrow> \<exists>sm. generate_summary story = Inr sm"
  by (simp add: generate_summary_def Let_def)





lemma set_add_length: "length (set_add x xs) \<le> Suc (length xs)"
  by (simp add: set_add_def)

lemma set_add_subset: "set xs \<subseteq> set (set_add x xs)"
  by (auto simp: set_add_def)

lemma extract_tags_keywords_inv:
  assumes "extract_tags_keywords kws s tgs = Inr (t, returned)" and "length tgs < 8"
  shows "length t \<le> 8 \<and> set tgs \<subseteq> set t \<and> (\<not> returned \<longrightarrow> length t < 8)"
  using assms
proof (induction kws arbitrary: tgs)
  case Nil
  then show ?case by auto
next
  case (Cons kw kws)
  show ?case
  proof (cases kw)
    case (YStr raw)
    show ?thesis
    proof (cases "str_in (lower raw) s")
      case True
      let ?tgs' = "set_add raw tgs"
      have len: "length ?tgs' \<le> 8"
        using set_add_length [of raw tgs] Cons.prems(2) by linarith
      show ?thesis
      proof (cases "length ?tgs' \<ge> 8")
        case full: True
        with Cons.prems(1) YStr True have "t = take 8 ?tgs'" "returned"
          by (simp_all add: Let_def)
        with len show ?thesis using set_add_subset [of tgs raw] by simp
      next
        case False
        with Cons.prems(1) YStr True
        have "extract_tags_keywords kws s ?tgs' = Inr (t, returned)"
          by (simp add: Let_def)
        moreover from False have "length ?tgs' < 8" by simp
        ultimately have "length t \<le> 8 \<and> set ?tgs' \<subseteq> set t \<and> (\<not> returned \<longrightarrow> length t < 8)"
          by (rule Cons.IH)
        then show ?thesis using set_add_subset [of tgs raw] by blast
      qed
    next
      case False
      with Cons.prems(1) YStr have "extract_tags_keywords kws s tgs = Inr (t, returned)"
        by simp
      then show ?thesis using Cons.prems(2) by (rule Cons.IH)
    qed
  qed (use Cons.prems in simp_all)
qed

lemma extract_tags_loop_inv:
  assumes "extract_tags_loop cats s tgs = Inr t" and "length tgs < 8"
  shows "length t \<le> 8 \<and> set tgs \<subseteq> set t"
  using assms
proof (induction cats arbitrary: tgs)
  case Nil
  then show ?case by auto
next
  case (Cons cat cats)
  obtain cat_name cat_data where cat: "cat = (cat_name, cat_data)" by (cases cat)
  from Cons.prems(1) obtain tgs' returned where
    r: "extract_tags_keywords (category_keywords cat_data) s tgs = Inr (tgs', returned)"
    by (auto simp: cat split: sum.splits)
  then have inv: "length tgs' \<le> 8 \<and> set tgs \<subseteq> set tgs' \<and> (\<not> returned \<longrightarrow> length tgs' < 8)"
    using Cons.prems(2) by (rule extract_tags_keywords_inv)
  show ?case
  proof (cases returned)
    case True
    with Cons.prems(1) r have "t = tgs'" by (simp add: cat)
    with inv show ?thesis by simp
  next
    case False
    with Cons.prems(1) r have "extract_tags_loop cats s tgs' = Inr t" by (simp add: cat)
    moreover from False inv have "length tgs' < 8" by simp
    ultimately have "length t \<le> 8 \<and> set tgs' \<subseteq> set t" by (rule Cons.IH)
    with inv show ?thesis by blast
  qed
qed

lemma extract_tags_inv:
  assumes "extract_tags rs s = Inr t"
  shows "length t \<le> 8 \<and> ''cyber-good-news'' \<in> set t \<and> ''security-positive'' \<in> set t"
proof -
  have "length t \<le> 8 \<and> set [''cyber-good-news'', ''security-positive''] \<subseteq> set t"
    using assms unfolding extract_tags_def by (rule extract_tags_loop_inv) simp
  then show ?thesis by simp
qed

lemma extract_tags_loop_total:
  "list_all (\<lambda>(cat_name, cat_data). list_all is_str (category_keywords cat_data)) cats
   \<Longrightarrow> \<exists>t. extract_tags_loop cats s tgs = Inr t"
proof (induction cats arbitrary: tgs)
  case Nil
  show ?case by (rule exI [of _ "take 8 tgs"]) simp
next
  case (Cons cat cats)
  obtain cat_name cat_data where cat: "cat = (cat_name, cat_data)" by (cases cat)
  from Cons.prems obtain tgs' returned where
    "extract_tags_keywords (category_keywords cat_data) s tgs = Inr (tgs', returned)"
    using tags_keywords_total by (fastforce simp: cat)
  moreover from Cons have "\<exists>t. extract_tags_loop cats s tgs' = Inr t"
    by simp
  ultimately show ?case by (simp add: cat)
qed

lemma categorize_loop_spec:
  assumes "categorize_loop cats s (bm, bs, bb) = Inr (rm, rc, rb)"
  shows "((rm, rc, rb) = (bm, bs, bb) \<and>
          (\<forall>(n, cd) \<in> set cats. \<exists>k. count_matches (category_keywords cd) s = Inr k \<and> k \<le> bs))
       \<or> (\<exists>pre c cd post. cats = pre @ (c, cd) # post \<and> rm = Some c \<and>
            count_matches (category_keywords cd) s = Inr rc \<and> bs < rc \<and>
            rb = base_or_default cd \<and>
            (\<forall>(n, cd') \<in> set pre. \<exists>k. count_matches (category_keywords cd') s = Inr k \<and> k < rc) \<and>
            (\<forall>(n, cd') \<in> set post. \<exists>k. count_matches (category_keywords cd') s = Inr k \<and> k \<le> rc))"
  using assms
proof (induction cats arbitrary: bm bs bb)
  case Nil
  then show ?case by simp
next
  case (Cons cat cats)
  obtain cn cd where cat: "cat = (cn, cd)" by (cases cat)
  from Cons.prems obtain m where m: "count_matches (category_keywords cd) s = Inr m"
    by (auto simp: cat split: sum.splits)
  show ?case
  proof (cases "m > bs")
    case True
    with Cons.prems m
    have "categorize_loop cats s (Some cn, m, base_or_default cd) = Inr (rm, rc, rb)"
      by (simp add: cat)
    from Cons.IH [OF this] show ?thesis
    proof (elim disjE conjE exE)
      assume eq: "(rm, rc, rb) = (Some cn, m, base_or_default cd)"
        and le: "\<forall>(n, cd) \<in> set cats. \<exists>k. count_matches (category_keywords cd) s = Inr k \<and> k \<le> m"
      have "cat # cats = [] @ (cn, cd) # cats" by (simp add: cat)
      with eq le m True show ?thesis by (intro disjI2 exI [of _ "[]"] exI [of _ cn] exI [of _ cd] exI [of _ cats]) auto
    next
      fix pre c cd' post
      assume a: "cats = pre @ (c, cd') # post" "rm = Some c"
        "count_matches (category_keywords cd') s = Inr rc" "m < rc" "rb = base_or_default cd'"
        "\<forall>(n, cd') \<in> set pre. \<exists>k. count_matches (category_keywords cd') s = Inr k \<and> k < rc"
        "\<forall>(n, cd') \<in> set post. \<exists>k. count_matches (category_keywords cd') s = Inr k \<and> k \<le> rc"
      have "cat # cats = (cat # pre) @ (c, cd') # post" using a(1) by simp
      with a m True show ?thesis
        by (intro disjI2 exI [of _ "cat # pre"] exI [of _ c] exI [of _ cd'] exI [of _ post])
           (auto simp: cat)
    qed
  next
    case False
    with Cons.prems m
    have "categorize_loop cats s (bm, bs, bb) = Inr (rm, rc, rb)"
      by (simp add: cat)
    from Cons.IH [OF this] show ?thesis
    proof (elim disjE conjE exE)
      assume eq: "(rm, rc, rb) = (bm, bs, bb)"
        and le: "\<forall>(n, cd) \<in> set cats. \<exists>k. count_matches (category_keywords cd) s = Inr k \<and> k \<le> bs"
      with m False show ?thesis by (intro disjI1) (auto simp: cat)
    next
      fix pre c cd' post
      assume a: "cats = pre @ (c, cd') # post" "rm = Some c"
        "count_matches (category_keywords cd') s = Inr rc" "bs < rc" "rb = base_or_default cd'"
        "\<forall>(n, cd') \<in> set pre. \<exists>k. count_matches (category_keywords cd') s = Inr k \<and> k < rc"
        "\<forall>(n, cd') \<in> set post. \<exists>k. count_matches (category_keywords cd') s = Inr k \<and> k \<le> rc"
      have "cat # cats = (cat # pre) @ (c, cd') # post" using a(1) by simp
      with a m False show ?thesis
        by (intro disjI2 exI [of _ "cat # pre"] exI [of _ c] exI [of _ cd'] exI [of _ post])
           (auto simp: cat)
    qed
  qed
qed

lemma process_story_frame: "frame_fields (fst (process_story rs m s)) = frame_fields s"
proof -
  obtain s' x where a: "analyze_story rs s = (s', x)" by (cases "analyze_story rs s")
  then have "frame_fields s' = frame_fields s"
    using analyze_story_frame [OF a] by (simp add: frame_fields_def)
  with a show ?thesis
    by (cases x) (simp_all add: process_story_def frame_fields_def Let_def)
qed

section \<open>The claims\<close>

subsection \<open>Frame of the classifier\<close>

text \<open>
  Claim C10. Classification mutates only the fields category, impact_score, tags,
  summary and is_processed: the fields id, title, description, source, source_url,
  published_date, collected_date and is_sent of every object are the same after a call
  of the classifier, and after a call of \<^verbatim>\<open>process_stories\<close> for every object of the
  store, whether or not the call raised on it.
\<close>

theorem classification_frame:
  "frame_fields (fst (analyze_story rs s)) = frame_fields s \<and>
   frame_fields (fst (process_stories rs m h stories) q) = frame_fields (h q)"
proof
  obtain s' x where a: "analyze_story rs s = (s', x)" by (cases "analyze_story rs s")
  from analyze_story_frame [OF a] a
  show "frame_fields (fst (analyze_story rs s)) = frame_fields s"
    by (simp add: frame_fields_def)
  show "frame_fields (fst (process_stories rs m h stories) q) = frame_fields (h q)"
    by (simp add: process_stories_store process_story_frame)
qed

subsection \<open>Clamping\<close>



subsection \<open>The gates\<close>

text \<open>
  Claim C5. For every record whose lower-cased title contains none of the
  positive-signal keywords, classification assigns category Neutral and impact_score
  exactly 0, whatever the description is, and does nothing else: every other field of the
  record is as before. The signal lists are lists of strings.
\<close>

theorem gate1_neutral:
  assumes "pos_keywords rs = map YStr ps"
      and "neg_keywords rs = map YStr ns"
      and "matching ps (lower (title s)) = []"
  shows "analyze_story rs s = (s\<lparr>impact_score := 0, category := ''Neutral''\<rparr>, None)"
  using assms by (simp add: analyze_story_def Let_def count_matches_strs)

theorem gate1_neutral_witness:
  "pos_keywords demo_rules = map YStr [''arrested'', ''open source''] \<and>
   neg_keywords demo_rules = map YStr [''breach'', ''ransomware''] \<and>
   matching [''arrested'', ''open source''] (lower (title breach_story)) = [] \<and>
   analyze_story demo_rules breach_story =
     (breach_story\<lparr>impact_score := 0, category := ''Neutral''\<rparr>, None)"
proof -
  have p: "pos_keywords demo_rules = map YStr [''arrested'', ''open source'']"
    by code_simp
  have n: "neg_keywords demo_rules = map YStr [''breach'', ''ransomware'']"
    by code_simp
  have m: "matching [''arrested'', ''open source''] (lower (title breach_story)) = []"
    by code_simp
  from gate1_neutral [OF p n m] p n m show ?thesis by blast
qed

text \<open>
  Claim C6. For every record whose lower-cased title matches at least one
  positive-signal keyword and strictly more negative-indicator keywords than
  positive-signal keywords, classification assigns category Negative and impact_score
  exactly 0 and does nothing else.
\<close>

theorem gate2_negative:
  assumes "pos_keywords rs = map YStr ps"
      and "neg_keywords rs = map YStr ns"
      and "0 < length (matching ps (lower (title s)))"
      and "length (matching ps (lower (title s))) < length (matching ns (lower (title s)))"
  shows "analyze_story rs s = (s\<lparr>impact_score := 0, category := ''Negative''\<rparr>, None)"
  using assms by (simp add: analyze_story_def Let_def count_matches_strs)

theorem gate2_negative_witness:
  "pos_keywords demo_rules = map YStr [''arrested'', ''open source''] \<and>
   neg_keywords demo_rules = map YStr [''breach'', ''ransomware''] \<and>
   0 < length (matching [''arrested'', ''open source''] (lower (title mixed_story))) \<and>
   length (matching [''arrested'', ''open source''] (lower (title mixed_story)))
     < length (matching [''breach'', ''ransomware''] (lower (title mixed_story))) \<and>
   analyze_story demo_rules mixed_story =
     (mixed_story\<lparr>impact_score := 0, category := ''Negative''\<rparr>, None)"
proof -
  have p: "pos_keywords demo_rules = map YStr [''arrested'', ''open source'']"
    by code_simp
  have n: "neg_keywords demo_rules = map YStr [''breach'', ''ransomware'']"
    by code_simp
  have a: "0 < length (matching [''arrested'', ''open source''] (lower (title mixed_story)))"
    by code_simp
  have b: "length (matching [''arrested'', ''open source''] (lower (title mixed_story)))
             < length (matching [''breach'', ''ransomware''] (lower (title mixed_story)))"
    by code_simp
  from gate2_negative [OF p n a b] p n a b show ?thesis by blast
qed

subsection \<open>Categorisation\<close>

text \<open>
  Claim C9. Categorisation returns on every rule set whose category keywords are
  strings. When it returns, either every category has zero keyword matches in the text
  and the result is the category Other with base score 3.0, or the result is a category
  of the rule mapping with its base score (5.0 when the category declares none), whose
  match count is positive, strictly greater than the count of every category declared
  before it and at least the count of every category declared after it: the greatest
  count wins and ties go to the category declared earlier.
\<close>

theorem categorize_first_maximum:
  "(typed_categories rs \<longrightarrow> (\<exists>c b. categorize rs s = Inr (c, b))) \<and>
   (\<forall>c b. categorize rs s = Inr (c, b) \<longrightarrow>
      (c = ''Other'' \<and> b = 3 \<and>
       (\<forall>(n, cd) \<in> set (dict_items (positive_categories rs)).
           count_matches (category_keywords cd) s = Inr 0))
    \<or> (\<exists>pre cd post k.
          dict_items (positive_categories rs) = pre @ (c, cd) # post \<and>
          b = base_or_default cd \<and>
          count_matches (category_keywords cd) s = Inr k \<and> 0 < k \<and>
          (\<forall>(n, cd') \<in> set pre.
              \<exists>j. count_matches (category_keywords cd') s = Inr j \<and> j < k) \<and>
          (\<forall>(n, cd') \<in> set post.
              \<exists>j. count_matches (category_keywords cd') s = Inr j \<and> j \<le> k)))"
proof (intro conjI allI impI)
  assume "typed_categories rs"
  then show "\<exists>c b. categorize rs s = Inr (c, b)" by (rule categorize_total)
next
  fix c b
  let ?cats = "dict_items (positive_categories rs)"
  assume a: "categorize rs s = Inr (c, b)"
  then obtain rm rc rb where loop: "categorize_loop ?cats s (None, 0, 3.0) = Inr (rm, rc, rb)"
    by (auto simp: categorize_def split: sum.splits)
  show "(c = ''Other'' \<and> b = 3 \<and>
         (\<forall>(n, cd) \<in> set ?cats. count_matches (category_keywords cd) s = Inr 0))
      \<or> (\<exists>pre cd post k.
            ?cats = pre @ (c, cd) # post \<and> b = base_or_default cd \<and>
            count_matches (category_keywords cd) s = Inr k \<and> 0 < k \<and>
            (\<forall>(n, cd') \<in> set pre.
                \<exists>j. count_matches (category_keywords cd') s = Inr j \<and> j < k) \<and>
            (\<forall>(n, cd') \<in> set post.
                \<exists>j. count_matches (category_keywords cd') s = Inr j \<and> j \<le> k))"
    using categorize_loop_spec [OF loop]
  proof (elim disjE conjE exE)
    assume eq: "(rm, rc, rb) = (None, 0, 3.0)"
      and le: "\<forall>(n, cd) \<in> set ?cats.
                 \<exists>k. count_matches (category_keywords cd) s = Inr k \<and> k \<le> 0"
    from a loop eq have "c = ''Other''" "b = 3" by (simp_all add: categorize_def)
    moreover from le
    have "\<forall>(n, cd) \<in> set ?cats. count_matches (category_keywords cd) s = Inr 0"
      by fastforce
    ultimately show ?thesis by blast
  next
    fix pre c' cd post
    assume b: "?cats = pre @ (c', cd) # post" "rm = Some c'"
      "count_matches (category_keywords cd) s = Inr rc" "0 < rc" "rb = base_or_default cd"
      "\<forall>(n, cd') \<in> set pre. \<exists>k. count_matches (category_keywords cd') s = Inr k \<and> k < rc"
      "\<forall>(n, cd') \<in> set post. \<exists>k. count_matches (category_keywords cd') s = Inr k \<and> k \<le> rc"
    from a loop b(2) have "c = c'" "b = rb" by (simp_all add: categorize_def)
    with b show ?thesis by blast
  qed
qed

theorem categorize_first_maximum_witness:
  "typed_categories demo_rules \<and>
   categorize demo_rules ''arrested research'' = Inr (''Security Wins'', 7) \<and>
   (\<exists>pre cd post k.
      dict_items (positive_categories demo_rules) = pre @ (''Security Wins'', cd) # post \<and>
      7 = base_or_default cd \<and>
      count_matches (category_keywords cd) ''arrested research'' = Inr k \<and> 0 < k \<and>
      (\<forall>(n, cd') \<in> set pre.
          \<exists>j. count_matches (category_keywords cd') ''arrested research'' = Inr j \<and> j < k) \<and>
      (\<forall>(n, cd') \<in> set post.
          \<exists>j. count_matches (category_keywords cd') ''arrested research'' = Inr j \<and> j \<le> k))"
proof -
  have t: "typed_categories demo_rules" by code_simp
  have c: "categorize demo_rules ''arrested research'' = Inr (''Security Wins'', 7)"
    by code_simp
  have o: "''Security Wins'' \<noteq> ''Other''" by simp
  from categorize_first_maximum [of demo_rules "''arrested research''"] t c o
  show ?thesis by blast
qed

subsection \<open>Negative-indicator penalty\<close>




subsection \<open>Tags\<close>

text \<open>
  Claim C8. For every text and rule set the tag generator returns at most 8 tags, and
  the returned tags contain both \<^verbatim>\<open>cyber-good-news\<close> and \<^verbatim>\<open>security-positive\<close>; it
  returns on every rule set whose category keywords are strings. Whenever classification
  proceeds past both gates and returns, the tags of the record are the generator's
  result, so they are at most 8 and contain both base tags.
\<close>

theorem tag_bound:
  "(typed_categories rs \<longrightarrow> (\<exists>tgs. extract_tags rs txt = Inr tgs)) \<and>
   (\<forall>tgs. extract_tags rs txt = Inr tgs \<longrightarrow>
      length tgs \<le> 8 \<and> ''cyber-good-news'' \<in> set tgs \<and> ''security-positive'' \<in> set tgs) \<and>
   (\<forall>title_pos title_neg s'.
      count_matches (pos_keywords rs) (lower (title s)) = Inr title_pos \<and> title_pos \<noteq> 0 \<and>
      count_matches (neg_keywords rs) (lower (title s)) = Inr title_neg \<and>
      title_neg \<le> title_pos \<and> analyze_story rs s = (s', None) \<longrightarrow>
      (\<exists>tgs. tags s' = Some tgs \<and> extract_tags rs (full_text s) = Inr tgs \<and>
         length tgs \<le> 8 \<and> ''cyber-good-news'' \<in> set tgs \<and> ''security-positive'' \<in> set tgs))"
proof (intro conjI allI impI)
  assume "typed_categories rs"
  then show "\<exists>tgs. extract_tags rs txt = Inr tgs"
    unfolding typed_categories_def extract_tags_def by (rule extract_tags_loop_total)
next
  fix tgs
  assume "extract_tags rs txt = Inr tgs"
  then have "length tgs \<le> 8 \<and> ''cyber-good-news'' \<in> set tgs \<and> ''security-positive'' \<in> set tgs"
    by (rule extract_tags_inv)
  then show "length tgs \<le> 8" "''cyber-good-news'' \<in> set tgs" "''security-positive'' \<in> set tgs"
    by simp_all
next
  fix title_pos title_neg s'
  assume a: "count_matches (pos_keywords rs) (lower (title s)) = Inr title_pos \<and> title_pos \<noteq> 0 \<and>
      count_matches (neg_keywords rs) (lower (title s)) = Inr title_neg \<and>
      title_neg \<le> title_pos \<and> analyze_story rs s = (s', None)"
  show "\<exists>tgs. tags s' = Some tgs \<and> extract_tags rs (full_text s) = Inr tgs \<and>
         length tgs \<le> 8 \<and> ''cyber-good-news'' \<in> set tgs \<and> ''security-positive'' \<in> set tgs"
  proof (cases rs s rule: analyze_story_cases)
    case (scored tp bp tn nc cat base score tgs sm)
    from scored(9) have "length tgs \<le> 8 \<and> ''cyber-good-news'' \<in> set tgs \<and> ''security-positive'' \<in> set tgs"
      by (rule extract_tags_inv)
    moreover from scored(11) a have "tags s' = Some tgs" by auto
    ultimately show ?thesis using scored(9) by blast
  qed (use a in auto)
qed

theorem tag_bound_witness:
  "typed_categories demo_rules \<and>
   extract_tags demo_rules (full_text demo_story) =
     Inr [''cyber-good-news'', ''security-positive'', ''arrested''] \<and>
   count_matches (pos_keywords demo_rules) (lower (title demo_story)) = Inr 1 \<and>
   count_matches (neg_keywords demo_rules) (lower (title demo_story)) = Inr 0 \<and>
   snd (analyze_story demo_rules demo_story) = None \<and>
   (\<exists>tgs. tags (fst (analyze_story demo_rules demo_story)) = Some tgs \<and>
      length tgs \<le> 8 \<and> ''cyber-good-news'' \<in> set tgs \<and> ''security-positive'' \<in> set tgs)"
proof -
  have t: "typed_categories demo_rules" by code_simp
  have x: "extract_tags demo_rules (full_text demo_story) =
             Inr [''cyber-good-news'', ''security-positive'', ''arrested'']"
    by code_simp
  have p: "count_matches (pos_keywords demo_rules) (lower (title demo_story)) = Inr 1"
    by code_simp
  have n: "count_matches (neg_keywords demo_rules) (lower (title demo_story)) = Inr 0"
    by code_simp
  have r: "snd (analyze_story demo_rules demo_story) = None" by code_simp
  then have r': "analyze_story demo_rules demo_story = (fst (analyze_story demo_rules demo_story), None)"
    by (metis prod.collapse)
  from tag_bound [of demo_rules "full_text demo_story" demo_story] t x p n r r'
  show ?thesis by fastforce
qed

subsection \<open>Rule set fallback\<close>

text \<open>
  Claim C3, amended. Whenever loading the external rule lexicon fails, the loader
  returns the built-in default rule set. That default contains the two categories
  Security Wins and Innovation and Research, with 4 and 3 keywords, and no
  positive-signal and no negative-indicator section: downstream components read both
  keyword lists as empty.
\<close>

theorem load_failure_gives_default:
  "load_scoring_rules (Inl e) = get_default_rules \<and>
   map fst (dict_items (positive_categories get_default_rules)) =
     [''Security Wins'', ''Innovation & Research''] \<and>
   map (\<lambda>(cat_name, cat_data). length (category_keywords cat_data))
     (dict_items (positive_categories get_default_rules)) = [4, 3] \<and>
   positive_signals get_default_rules = None \<and>
   negative_indicators get_default_rules = None \<and>
   pos_keywords get_default_rules = [] \<and>
   neg_keywords get_default_rules = []"
  by (simp add: load_scoring_rules_def get_default_rules_def dict_items_def
        category_keywords_def signal_keywords_def)

text \<open>
  The claim as worded fails: after a load failure the positive-signal and
  negative-indicator keyword lists are not both non-empty.
\<close>

theorem default_rules_have_no_signals:
  "\<not> (pos_keywords (load_scoring_rules (Inl FileNotFoundError)) \<noteq> [] \<and>
      neg_keywords (load_scoring_rules (Inl FileNotFoundError)) \<noteq> [])"
  by (simp add: load_scoring_rules_def get_default_rules_def signal_keywords_def)

subsection \<open>Pipeline entry point\<close>

text \<open>
  Claim C1, amended. A record whose is_processed flag is already true when
  \<^verbatim>\<open>process_stories\<close> is called is not classified again, the call leaves the object as
  it was; it is evaluated for inclusion, and appears in the returned sequence exactly
  when its current impact_score is at least \<^verbatim>\<open>MIN_IMPACT_SCORE\<close>.
\<close>

theorem processed_record_filtered_by_score:
  assumes "q \<in> set stories" and "is_processed (h q)"
  shows "fst (process_stories rs m h stories) q = h q \<and>
         (q \<in> set (snd (process_stories rs m h stories)) \<longleftrightarrow>
            impact_score (h q) \<ge> of_int m)"
  using assms by (simp add: process_stories_store process_stories_output process_story_def)

theorem processed_record_filtered_by_score_witness:
  "(1::nat) \<in> set [0, 1] \<and> is_processed (demo_store 1) \<and>
   fst (process_stories demo_rules 5 demo_store [0, 1]) 1 = demo_store 1 \<and>
   1 \<in> set (snd (process_stories demo_rules 5 demo_store [0, 1]))"
proof -
  have a: "(1::nat) \<in> set [0, 1]" by simp
  have b: "is_processed (demo_store 1)" by (simp add: demo_store_def old_story_def)
  have c: "impact_score (demo_store 1) \<ge> of_int 5" by (simp add: demo_store_def old_story_def)
  from processed_record_filtered_by_score
         [where q = 1 and stories = "[0, 1]" and h = demo_store and rs = demo_rules and m = 5]
       a b c
  show ?thesis by blast
qed

text \<open>
  The claim as worded fails: an already processed record with impact_score 7.0 is
  returned when the threshold is 5.
\<close>

theorem processed_record_returned:
  "is_processed (demo_store 1) \<and>
   1 \<in> set (snd (process_stories demo_rules 5 demo_store [1]))"
  by code_simp

text \<open>
  Claim C4, amended. If classifying a record raises, the record is not in the output
  of \<^verbatim>\<open>process_stories\<close>, and every record of the input is still treated as it would
  be alone: its object ends as one loop iteration on its initial state leaves it, and
  the output is the input sequence filtered by that iteration's decision. The raising
  record keeps is_processed false, its summary and every field that the classifier only
  reads; its category, impact_score and tags hold whatever the classifier had assigned
  when it raised.
\<close>

theorem raising_record_excluded:
  assumes "q \<in> set stories" and "\<not> is_processed (h q)"
      and "analyze_story rs (h q) = (s', Some e)"
  shows "q \<notin> set (snd (process_stories rs m h stories)) \<and>
         fst (process_stories rs m h stories) q =
           (h q)\<lparr>category := category s', impact_score := impact_score s',
                  tags := tags s'\<rparr> \<and>
         \<not> is_processed (fst (process_stories rs m h stories) q) \<and>
         summary (fst (process_stories rs m h stories) q) = summary (h q) \<and>
         (\<forall>p \<in> set stories.
            fst (process_stories rs m h stories) p = fst (process_story rs m (h p))) \<and>
         snd (process_stories rs m h stories) =
           filter (\<lambda>p. snd (process_story rs m (h p))) stories"
proof -
  from assms(2,3) have ps: "process_story rs m (h q) = (s', False)"
    by (simp add: process_story_def)
  from assms(3)
  have shape: "s' = (h q)\<lparr>category := category s', impact_score := impact_score s',
                           tags := tags s'\<rparr>"
    by (rule analyze_story_raise_shape)
  have "\<not> is_processed s'" "summary s' = summary (h q)"
    using assms(2) by (subst shape, simp)+
  with ps shape show ?thesis
    using assms(1) by (simp add: process_stories_store process_stories_output)
qed

theorem raising_record_excluded_witness:
  "(0::nat) \<in> set [0, 1] \<and> \<not> is_processed (null_store 0) \<and>
   analyze_story demo_rules (null_store 0) =
     (null_story\<lparr>category := ''Security Wins'', impact_score := 7,
                  tags := Some [''cyber-good-news'', ''security-positive'', ''arrested'']\<rparr>,
      Some TypeError) \<and>
   snd (process_stories demo_rules 5 null_store [0, 1]) = [1] \<and>
   fst (process_stories demo_rules 5 null_store [0, 1]) 0 =
     null_story\<lparr>category := ''Security Wins'', impact_score := 7,
                 tags := Some [''cyber-good-news'', ''security-positive'', ''arrested'']\<rparr> \<and>
   fst (process_stories demo_rules 5 null_store [0, 1]) 1 = old_story"
proof -
  let ?s' = "null_story\<lparr>category := ''Security Wins'', impact_score := 7,
               tags := Some [''cyber-good-news'', ''security-positive'', ''arrested'']\<rparr>"
  have a: "(0::nat) \<in> set [0, 1]" by simp
  have b: "\<not> is_processed (null_store 0)"
    by (simp add: null_store_def null_story_def demo_story_def)
  have c: "analyze_story demo_rules (null_store 0) = (?s', Some TypeError)"
    by code_simp
  have d: "process_story demo_rules 5 (null_store 1) = (old_story, True)"
    by code_simp
  have e: "process_story demo_rules 5 (null_store 0) = (?s', False)"
    by code_simp
  have f: "null_store 0 = null_story" by (simp add: null_store_def)
  from raising_record_excluded
         [where q = 0 and stories = "[0, 1]" and h = null_store and rs = demo_rules
            and m = 5 and s' = ?s' and e = TypeError]
       a b c d e f
  show ?thesis by simp
qed

text \<open>
  The claim as worded fails. When the summary generator raises on a description that
  is \<^verbatim>\<open>None\<close>, the category, the impact_score and the tags of the record have already
  been overwritten; when the score calculation raises on a non-string modifier
  keyword, the category has.
\<close>

theorem raising_record_partly_updated:
  "\<not> is_processed (null_store 0) \<and>
   snd (analyze_story demo_rules (null_store 0)) = Some TypeError \<and>
   category (null_store 0) = ''Uncategorized'' \<and>
   impact_score (null_store 0) = 0 \<and>
   tags (null_store 0) = None \<and>
   category (fst (process_stories demo_rules 5 null_store [0]) 0) = ''Security Wins'' \<and>
   impact_score (fst (process_stories demo_rules 5 null_store [0]) 0) = 7 \<and>
   tags (fst (process_stories demo_rules 5 null_store [0]) 0) =
     Some [''cyber-good-news'', ''security-positive'', ''arrested''] \<and>
   snd (analyze_story broken_rules (demo_store 0)) = Some AttributeError \<and>
   category (demo_store 0) = ''Uncategorized'' \<and>
   category (fst (process_stories broken_rules 5 demo_store [0]) 0) = ''Security Wins''"
  by code_simp

end
